theory Spec2Isabelle
  imports Main "HOL-Library.Word"
begin

unbundle bit_operations_syntax

section \<open>Go values: machine integers, byte slices and the heap\<close>

text \<open>
  The repository is Go. Its \<^verbatim>\<open>int\<close> is taken as the 64-bit two's-complement integer of
  the usual targets: a value of type \<^verbatim>\<open>int\<close> is a HOL integer in the range of
  \<open>is_int\<close>, and every addition, subtraction and multiplication of the source is
  written with \<open>wrap\<close>, the wrap-around Go defines for signed overflow.
\<close>

definition max_int :: int where
  "max_int = 2 ^ 63 - 1"

definition min_int :: int where
  "min_int = - (2 ^ 63)"

definition is_int :: "int \<Rightarrow> bool" where
  "is_int x = (min_int \<le> x \<and> x \<le> max_int)"

definition wrap :: "int \<Rightarrow> int" where
  "wrap x = (x + 2 ^ 63) mod 2 ^ 64 - 2 ^ 63"

definition go_add :: "int \<Rightarrow> int \<Rightarrow> int" where
  "go_add x y = wrap (x + y)"

definition go_sub :: "int \<Rightarrow> int \<Rightarrow> int" where
  "go_sub x y = wrap (x - y)"

definition go_mul :: "int \<Rightarrow> int \<Rightarrow> int" where
  "go_mul x y = wrap (x * y)"

text \<open>
  A byte slice is a reference: a backing array (an address of the heap), the offset of
  the slice's first element in it, a length and a capacity. \<open>NilSlice\<close> is Go's
  \<^verbatim>\<open>nil\<close> slice (length and capacity 0); a slice made by \<^verbatim>\<open>make([]byte, 0)\<close> is empty
  but not nil. The heap is the list of all arrays ever allocated; allocation appends, so
  the address of a fresh array is the length of the heap before the allocation.
\<close>

type_synonym byte = "8 word"

type_synonym heap = "byte list list"

datatype slice = NilSlice | Slice nat nat nat nat

fun len :: "slice \<Rightarrow> int" where
  "len NilSlice = 0"
| "len (Slice a p l c) = int l"

fun cap :: "slice \<Rightarrow> int" where
  "cap NilSlice = 0"
| "cap (Slice a p l c) = int c"

fun bytes_of :: "heap \<Rightarrow> slice \<Rightarrow> byte list" where
  "bytes_of h NilSlice = []"
| "bytes_of h (Slice a p l c) = take l (drop p (h ! a))"

text \<open>
  What can abort a call: the run-time panics of slicing, indexing and \<^verbatim>\<open>make\<close>, and the
  explicit \<^verbatim>\<open>panic("buffer: negative extend size")\<close> of \<^verbatim>\<open>Extend\<close>. A panic is the
  left summand of a result; the right summand is a normal return. Running out of memory
  is not modelled: \<^verbatim>\<open>make\<close> of a non-negative length succeeds.
\<close>

datatype fault = SliceBounds | IndexRange | MakeLen | NegativeExtend

text \<open>Go's \<^verbatim>\<open>error\<close> values: \<^verbatim>\<open>io.EOF\<close> and the results of \<^verbatim>\<open>errors.New\<close>.\<close>

datatype err = EOF | ErrorsNew string

text \<open>The simple slice expression \<^verbatim>\<open>s[lo:hi]\<close>: it panics unless \<open>0 \<le> lo \<le> hi \<le> cap s\<close>.\<close>

definition reslice :: "slice \<Rightarrow> int \<Rightarrow> int \<Rightarrow> fault + slice" where
  "reslice s lo hi =
     (if 0 \<le> lo \<and> lo \<le> hi \<and> hi \<le> cap s
      then Inr (case s of
                  NilSlice \<Rightarrow> NilSlice
                | Slice a p l c \<Rightarrow> Slice a (p + nat lo) (nat (hi - lo)) (c - nat lo))
      else Inl SliceBounds)"

text \<open>The index expression \<^verbatim>\<open>s[i]\<close>, read and written: it panics unless \<open>0 \<le> i < len s\<close>.\<close>

definition index_get :: "heap \<Rightarrow> slice \<Rightarrow> int \<Rightarrow> fault + byte" where
  "index_get h s i =
     (if 0 \<le> i \<and> i < len s then Inr (bytes_of h s ! nat i) else Inl IndexRange)"

fun index_set :: "heap \<Rightarrow> slice \<Rightarrow> int \<Rightarrow> byte \<Rightarrow> fault + heap" where
  "index_set h NilSlice i v = Inl IndexRange"
| "index_set h (Slice a p l c) i v =
     (if 0 \<le> i \<and> i < int l then Inr (h[a := (h ! a)[p + nat i := v]]) else Inl IndexRange)"

text \<open>
  \<^verbatim>\<open>copy(dst, src)\<close> moves \<open>min (len dst) (len src)\<close> bytes and returns that number. The
  source bytes are read before any is written, as Go specifies for overlapping slices.
\<close>

fun write_at :: "heap \<Rightarrow> slice \<Rightarrow> byte list \<Rightarrow> heap" where
  "write_at h NilSlice bs = h"
| "write_at h (Slice a p l c) bs =
     h[a := take p (h ! a) @ bs @ drop (p + length bs) (h ! a)]"

definition copy :: "heap \<Rightarrow> slice \<Rightarrow> slice \<Rightarrow> heap \<times> int" where
  "copy h dst src =
     (let n = min (len dst) (len src)
      in (write_at h dst (take (nat n) (bytes_of h src)), n))"

text \<open>\<^verbatim>\<open>make([]byte, n)\<close>: a fresh zero-filled array; a negative length panics.\<close>

definition make_slice :: "heap \<Rightarrow> int \<Rightarrow> fault + (slice \<times> heap)" where
  "make_slice h n =
     (if n < 0 then Inl MakeLen
      else Inr (Slice (length h) 0 (nat n) (nat n), h @ [replicate (nat n) 0]))"

text \<open>
  A slice is well formed in a heap when its array exists, its window lies inside the
  array, and its capacity is a value of type \<^verbatim>\<open>int\<close>.
\<close>

fun wf_slice :: "heap \<Rightarrow> slice \<Rightarrow> bool" where
  "wf_slice h NilSlice = True"
| "wf_slice h (Slice a p l c) =
     (a < length h \<and> l \<le> c \<and> p + c \<le> length (h ! a) \<and> int c \<le> max_int)"

section \<open>Package alloc: the size-class pool\<close>

definition MaxSize :: int where
  "MaxSize = 65536"

text \<open>
  \<^verbatim>\<open>sync.Pool\<close>: the cached items and the size its \<^verbatim>\<open>New\<close> closure allocates
  (\<^verbatim>\<open>size := 1 << uint(i)\<close>, captured in \<^verbatim>\<open>NewAllocator\<close>). \<^verbatim>\<open>Get\<close> hands out a cached
  item when there is one and calls \<^verbatim>\<open>New\<close> otherwise; \<^verbatim>\<open>Put\<close> caches the item.
\<close>

record Pool =
  cached :: "slice list"
  new_size :: int

record Allocator =
  buffers :: "Pool list"

definition Pool_Get :: "heap \<Rightarrow> Pool \<Rightarrow> fault + (slice \<times> Pool \<times> heap)" where
  "Pool_Get h p =
     (case cached p of
        x # xs \<Rightarrow> Inr (x, p\<lparr>cached := xs\<rparr>, h)
      | [] \<Rightarrow> (case make_slice h (new_size p) of
                 Inl f \<Rightarrow> Inl f
               | Inr (s, h') \<Rightarrow> Inr (s, p, h')))"

definition Pool_Put :: "Pool \<Rightarrow> slice \<Rightarrow> Pool" where
  "Pool_Put p s = p\<lparr>cached := s # cached p\<rparr>"

definition NewAllocator :: Allocator where
  "NewAllocator =
     \<lparr>buffers = map (\<lambda>i. \<lparr>cached = [], new_size = push_bit i 1\<rparr>) [0 ..< 16 + 1]\<rparr>"

text \<open>\<^verbatim>\<open>bits.Len(x)\<close>: the number of bits needed to represent \<open>x\<close>, 0 for \<open>x = 0\<close>.\<close>

fun bits_Len :: "nat \<Rightarrow> nat" where
  "bits_Len x = (if x = 0 then 0 else Suc (bits_Len (x div 2)))"

definition msb :: "int \<Rightarrow> int" where
  "msb sz = (if sz \<le> 0 then 0 else go_sub (int (bits_Len (nat sz))) 1)"

definition Allocator_Get :: "heap \<Rightarrow> Allocator \<Rightarrow> int \<Rightarrow> fault + (slice \<times> Allocator \<times> heap)" where
  "Allocator_Get h a sz =
     (if sz \<le> 0 \<or> sz > MaxSize then Inr (NilSlice, a, h)
      else
        let idx0 = msb sz;
            idx = (if sz \<noteq> push_bit (nat idx0) 1 then go_add idx0 1 else idx0)
        in if idx < 0 \<or> idx \<ge> int (length (buffers a)) then Inr (NilSlice, a, h)
           else (case Pool_Get h (buffers a ! nat idx) of
                   Inl f \<Rightarrow> Inl f
                 | Inr (buf, p', h') \<Rightarrow>
                     (case reslice buf 0 sz of
                        Inl f \<Rightarrow> Inl f
                      | Inr s \<Rightarrow> Inr (s, a\<lparr>buffers := (buffers a)[nat idx := p']\<rparr>, h'))))"

definition Allocator_Put :: "Allocator \<Rightarrow> slice \<Rightarrow> fault + (err option \<times> Allocator)" where
  "Allocator_Put a buf =
     (if buf = NilSlice then Inr (Some (ErrorsNew ''alloc: Put(nil)''), a)
      else
        let c = cap buf
        in if c \<le> 0 \<or> c > MaxSize
           then Inr (Some (ErrorsNew ''alloc: Put() incorrect buffer size''), a)
           else if c AND go_sub c 1 \<noteq> 0
           then Inr (Some (ErrorsNew ''alloc: Put() incorrect buffer size (not power of two)''), a)
           else
             let idx = msb c
             in if idx < 0 \<or> idx \<ge> int (length (buffers a))
                then Inr (Some (ErrorsNew ''alloc: Put() invalid pool index''), a)
                else (case reslice buf 0 c of
                        Inl f \<Rightarrow> Inl f
                      | Inr buf' \<Rightarrow>
                          Inr (None,
                               a\<lparr>buffers := (buffers a)[nat idx := Pool_Put (buffers a ! nat idx) buf']\<rparr>)))"

text \<open>
  The invariant of an allocator: 17 pools, pool \<open>i\<close> allocating \<open>2 ^ i\<close> bytes and
  caching only slices of length and capacity \<open>2 ^ i\<close> that are well formed in the heap.
\<close>

definition pool_ok :: "heap \<Rightarrow> nat \<Rightarrow> Pool \<Rightarrow> bool" where
  "pool_ok h i p =
     (new_size p = 2 ^ i \<and>
      list_all (\<lambda>s. wf_slice h s \<and> len s = 2 ^ i \<and> cap s = 2 ^ i) (cached p))"

definition alloc_inv :: "heap \<Rightarrow> Allocator \<Rightarrow> bool" where
  "alloc_inv h a =
     (length (buffers a) = 17 \<and>
      list_all (\<lambda>i. pool_ok h i (buffers a ! i)) [0 ..< 17])"

text \<open>A power of two, and the smallest power of two that is at least \<open>s\<close>.\<close>

definition is_pow2 :: "int \<Rightarrow> bool" where
  "is_pow2 c = (\<exists>k. c = 2 ^ k)"

definition smallest_pow2_geq :: "int \<Rightarrow> int \<Rightarrow> bool" where
  "smallest_pow2_geq s c = (is_pow2 c \<and> s \<le> c \<and> (\<forall>d. is_pow2 d \<and> s \<le> d \<longrightarrow> c \<le> d))"

text \<open>
  The package-level \<^verbatim>\<open>Get\<close> and \<^verbatim>\<open>Put\<close> work on \<^verbatim>\<open>defaultAllocator\<close>, a global. The
  state a call of package buffer can touch is the heap and that allocator.
\<close>

record world =
  heap :: heap
  defaultAllocator :: Allocator

definition alloc_Get :: "world \<Rightarrow> int \<Rightarrow> fault + (slice \<times> world)" where
  "alloc_Get w sz =
     (case Allocator_Get (heap w) (defaultAllocator w) sz of
        Inl f \<Rightarrow> Inl f
      | Inr (s, a, h) \<Rightarrow> Inr (s, \<lparr>heap = h, defaultAllocator = a\<rparr>))"

definition alloc_Put :: "world \<Rightarrow> slice \<Rightarrow> fault + (err option \<times> world)" where
  "alloc_Put w buf =
     (case Allocator_Put (defaultAllocator w) buf of
        Inl f \<Rightarrow> Inl f
      | Inr (e, a) \<Rightarrow> Inr (e, w\<lparr>defaultAllocator := a\<rparr>))"

section \<open>Package buffer: the growable buffer\<close>

definition DefaultSize :: int where
  "DefaultSize = 32 * 1024"

record Buffer =
  data :: slice
  start :: int
  end_idx :: int
  pooled :: bool

text \<open>The zero value \<^verbatim>\<open>Buffer{}\<close>.\<close>

definition zero_Buffer :: Buffer where
  "zero_Buffer = \<lparr>data = NilSlice, start = 0, end_idx = 0, pooled = False\<rparr>"

definition NewSize :: "world \<Rightarrow> int \<Rightarrow> fault + (Buffer \<times> world)" where
  "NewSize w sz0 =
     (let sz = (if sz0 < 0 then 0 else sz0);
          b = zero_Buffer
      in if sz = 0 then Inr (b\<lparr>data := NilSlice, pooled := False\<rparr>, w)
         else (case alloc_Get w sz of
                 Inl f \<Rightarrow> Inl f
               | Inr (d, w1) \<Rightarrow>
                   if d \<noteq> NilSlice
                   then (case reslice d 0 sz of
                           Inl f \<Rightarrow> Inl f
                         | Inr d' \<Rightarrow> Inr (b\<lparr>data := d', pooled := True\<rparr>, w1))
                   else (case make_slice (heap w1) sz of
                           Inl f \<Rightarrow> Inl f
                         | Inr (d', h') \<Rightarrow> Inr (b\<lparr>data := d', pooled := False\<rparr>, w1\<lparr>heap := h'\<rparr>))))"

definition New :: "world \<Rightarrow> fault + (Buffer \<times> world)" where
  "New w = NewSize w DefaultSize"

definition FromBytes :: "slice \<Rightarrow> Buffer" where
  "FromBytes s = \<lparr>data = s, start = 0, end_idx = len s, pooled = False\<rparr>"

definition Bytes :: "Buffer \<Rightarrow> fault + slice" where
  "Bytes b = reslice (data b) (start b) (end_idx b)"

definition Len :: "Buffer \<Rightarrow> int" where
  "Len b = go_sub (end_idx b) (start b)"

definition Cap :: "Buffer \<Rightarrow> int" where
  "Cap b = len (data b)"

definition IsEmpty :: "Buffer \<Rightarrow> bool" where
  "IsEmpty b = (Len b = 0)"

definition Reset :: "Buffer \<Rightarrow> Buffer" where
  "Reset b = b\<lparr>start := 0, end_idx := 0\<rparr>"

text \<open>
  The tail of \<^verbatim>\<open>grow\<close> from the comment "Need to allocate a bigger slice" on, which
  both paths of \<^verbatim>\<open>grow\<close> fall into.
\<close>

definition grow_alloc :: "heap \<Rightarrow> Buffer \<Rightarrow> int \<Rightarrow> fault + (Buffer \<times> heap)" where
  "grow_alloc h b n =
     (let curLen = Len b;
          newCap0 = go_add curLen n;
          dbl = go_mul (len (data b)) 2;
          newCap = (if newCap0 < dbl then (if dbl = 0 then n else dbl) else newCap0)
      in case make_slice h newCap of
           Inl f \<Rightarrow> Inl f
         | Inr (newData, h1) \<Rightarrow>
             if curLen > 0
             then (case reslice (data b) (start b) (end_idx b) of
                     Inl f \<Rightarrow> Inl f
                   | Inr src \<Rightarrow>
                       Inr (b\<lparr>data := newData, start := 0, end_idx := curLen, pooled := False\<rparr>,
                            fst (copy h1 newData src)))
             else Inr (b\<lparr>data := newData, start := 0, end_idx := curLen, pooled := False\<rparr>, h1))"

definition grow :: "heap \<Rightarrow> Buffer \<Rightarrow> int \<Rightarrow> fault + (Buffer \<times> heap)" where
  "grow h b n =
     (if n \<le> 0 then Inr (b, h)
      else if go_sub (len (data b)) (end_idx b) \<ge> n then Inr (b, h)
      else if start b > 0 \<and> Len b > 0
      then (case reslice (data b) (start b) (end_idx b) of
              Inl f \<Rightarrow> Inl f
            | Inr src \<Rightarrow>
                let h1 = fst (copy h (data b) src);
                    b1 = b\<lparr>end_idx := Len b\<rparr>;
                    b2 = b1\<lparr>start := 0\<rparr>
                in if go_sub (len (data b2)) (end_idx b2) \<ge> n then Inr (b2, h1)
                   else grow_alloc h1 b2 n)
      else grow_alloc h b n)"

definition Extend :: "heap \<Rightarrow> Buffer \<Rightarrow> int \<Rightarrow> fault + (slice \<times> Buffer \<times> heap)" where
  "Extend h b n =
     (if n < 0 then Inl NegativeExtend
      else (case grow h b n of
              Inl f \<Rightarrow> Inl f
            | Inr (b1, h1) \<Rightarrow>
                let st = end_idx b1;
                    b2 = b1\<lparr>end_idx := go_add (end_idx b1) n\<rparr>
                in (case reslice (data b2) st (end_idx b2) of
                      Inl f \<Rightarrow> Inl f
                    | Inr s \<Rightarrow> Inr (s, b2, h1))))"

definition Write :: "heap \<Rightarrow> Buffer \<Rightarrow> slice \<Rightarrow> fault + (int \<times> err option \<times> Buffer \<times> heap)" where
  "Write h b p =
     (if len p = 0 then Inr (0, None, b, h)
      else (case grow h b (len p) of
              Inl f \<Rightarrow> Inl f
            | Inr (b1, h1) \<Rightarrow>
                (case reslice (data b1) (end_idx b1) (len (data b1)) of
                   Inl f \<Rightarrow> Inl f
                 | Inr dst \<Rightarrow>
                     let (h2, n) = copy h1 dst p
                     in Inr (n, None, b1\<lparr>end_idx := go_add (end_idx b1) n\<rparr>, h2))))"

definition WriteByte :: "heap \<Rightarrow> Buffer \<Rightarrow> byte \<Rightarrow> fault + (err option \<times> Buffer \<times> heap)" where
  "WriteByte h b c =
     (case grow h b 1 of
        Inl f \<Rightarrow> Inl f
      | Inr (b1, h1) \<Rightarrow>
          (case index_set h1 (data b1) (end_idx b1) c of
             Inl f \<Rightarrow> Inl f
           | Inr h2 \<Rightarrow> Inr (None, b1\<lparr>end_idx := go_add (end_idx b1) 1\<rparr>, h2)))"

text \<open>The three read operations end with the same reset of both indexes.\<close>

definition reset_if_consumed :: "Buffer \<Rightarrow> Buffer" where
  "reset_if_consumed b = (if start b = end_idx b then b\<lparr>start := 0, end_idx := 0\<rparr> else b)"

definition Read :: "heap \<Rightarrow> Buffer \<Rightarrow> slice \<Rightarrow> fault + (int \<times> err option \<times> Buffer \<times> heap)" where
  "Read h b p =
     (if IsEmpty b then Inr (0, Some EOF, b, h)
      else (case reslice (data b) (start b) (end_idx b) of
              Inl f \<Rightarrow> Inl f
            | Inr src \<Rightarrow>
                let (h1, n) = copy h p src
                in Inr (n, None, reset_if_consumed (b\<lparr>start := go_add (start b) n\<rparr>), h1)))"

definition ReadByte :: "heap \<Rightarrow> Buffer \<Rightarrow> fault + (byte \<times> err option \<times> Buffer)" where
  "ReadByte h b =
     (if IsEmpty b then Inr (0, Some EOF, b)
      else (case index_get h (data b) (start b) of
              Inl f \<Rightarrow> Inl f
            | Inr c \<Rightarrow> Inr (c, None, reset_if_consumed (b\<lparr>start := go_add (start b) 1\<rparr>))))"

definition To :: "Buffer \<Rightarrow> int \<Rightarrow> fault + slice" where
  "To b n =
     (if n \<le> 0 then Inr NilSlice
      else let n1 = (if n > Len b then Len b else n)
           in reslice (data b) (start b) (go_add (start b) n1))"

definition ReadBytes :: "heap \<Rightarrow> Buffer \<Rightarrow> int \<Rightarrow> fault + (slice \<times> err option \<times> Buffer \<times> heap)" where
  "ReadBytes h b n =
     (if n < 0 then Inr (NilSlice, Some (ErrorsNew ''buffer: negative length''), b, h)
      else if Len b < n then Inr (NilSlice, Some EOF, b, h)
      else (case make_slice h n of
              Inl f \<Rightarrow> Inl f
            | Inr (out, h1) \<Rightarrow>
                (case reslice (data b) (start b) (go_add (start b) n) of
                   Inl f \<Rightarrow> Inl f
                 | Inr src \<Rightarrow>
                     Inr (out, None, reset_if_consumed (b\<lparr>start := go_add (start b) n\<rparr>),
                          fst (copy h1 out src)))))"

text \<open>\<^verbatim>\<open>Release\<close> has a pointer receiver that may be \<^verbatim>\<open>nil\<close>: \<open>None\<close> here.\<close>

definition Release :: "world \<Rightarrow> Buffer option \<Rightarrow> fault + (Buffer option \<times> world)" where
  "Release w bo =
     (case bo of
        None \<Rightarrow> Inr (None, w)
      | Some b \<Rightarrow>
          if pooled b \<and> data b \<noteq> NilSlice
          then (case alloc_Put w (data b) of
                  Inl f \<Rightarrow> Inl f
                | Inr (e, w1) \<Rightarrow> Inr (Some zero_Buffer, w1))
          else Inr (Some zero_Buffer, w))"

text \<open>
  The invariant of a buffer, and its readable content \<^verbatim>\<open>data[start:end]\<close> as a list
  of bytes.
\<close>

definition buf_inv :: "heap \<Rightarrow> Buffer \<Rightarrow> bool" where
  "buf_inv h b =
     (wf_slice h (data b) \<and> 0 \<le> start b \<and> start b \<le> end_idx b \<and> end_idx b \<le> len (data b))"

definition content :: "heap \<Rightarrow> Buffer \<Rightarrow> byte list" where
  "content h b =
     (case data b of
        NilSlice \<Rightarrow> []
      | Slice a p l c \<Rightarrow> take (nat (end_idx b - start b)) (drop (p + nat (start b)) (h ! a)))"

text \<open>
  The loops of the tests: writing a sequence byte by byte with \<^verbatim>\<open>WriteByte\<close>, and reading
  \<open>k\<close> bytes with repeated \<^verbatim>\<open>ReadByte\<close>, which stops at the first end-of-data.
\<close>

fun WriteByte_all :: "heap \<Rightarrow> Buffer \<Rightarrow> byte list \<Rightarrow> fault + (Buffer \<times> heap)" where
  "WriteByte_all h b [] = Inr (b, h)"
| "WriteByte_all h b (c # cs) =
     (case WriteByte h b c of
        Inl f \<Rightarrow> Inl f
      | Inr (e, b', h') \<Rightarrow> WriteByte_all h' b' cs)"

fun ReadByte_n :: "heap \<Rightarrow> Buffer \<Rightarrow> nat \<Rightarrow> fault + (byte list \<times> Buffer)" where
  "ReadByte_n h b 0 = Inr ([], b)"
| "ReadByte_n h b (Suc k) =
     (case ReadByte h b of
        Inl f \<Rightarrow> Inl f
      | Inr (c, e, b') \<Rightarrow>
          if e \<noteq> None then Inr ([], b')
          else (case ReadByte_n h b' k of
                  Inl f \<Rightarrow> Inl f
                | Inr (cs, b'') \<Rightarrow> Inr (c # cs, b'')))"

text \<open>
  A heap \<open>h'\<close> extends \<open>h\<close> when every array of \<open>h\<close> is still there with its length:
  arrays are only added, and written in place.
\<close>

definition heap_le :: "heap \<Rightarrow> heap \<Rightarrow> bool" where
  "heap_le h h' = (length h \<le> length h' \<and> (\<forall>a < length h. length (h' ! a) = length (h ! a)))"

section \<open>Machine arithmetic\<close>

lemma wrap_id: "is_int x \<Longrightarrow> wrap x = x"
  by (simp add: wrap_def is_int_def min_int_def max_int_def)

lemma wrap_id': "- (2 ^ 63) \<le> x \<Longrightarrow> x < 2 ^ 63 \<Longrightarrow> wrap x = x"
  by (simp add: wrap_def)

lemma wrap_over: "2 ^ 63 \<le> x \<Longrightarrow> x < 2 ^ 64 \<Longrightarrow> wrap x = x - 2 ^ 64"
proof -
  assume a: "2 ^ 63 \<le> x" "x < 2 ^ 64"
  have "(x + 2 ^ 63) mod 2 ^ 64 = (x + 2 ^ 63 - 2 ^ 64) mod (2 ^ 64 :: int)"
    by (metis minus_mod_self2)
  also have "\<dots> = x + 2 ^ 63 - 2 ^ 64"
    using a by (intro mod_pos_pos_trivial) simp_all
  finally show ?thesis by (simp add: wrap_def)
qed

lemma is_int_wrap: "is_int (wrap x)"
proof -
  have "0 \<le> (x + 2 ^ 63) mod (2 ^ 64 :: int)" "(x + 2 ^ 63) mod (2 ^ 64 :: int) < 2 ^ 64"
    by simp_all
  then show ?thesis
    by (simp add: wrap_def is_int_def min_int_def max_int_def)
qed

lemma bits_Len_bounds: "0 < x \<Longrightarrow> 2 ^ (bits_Len x - 1) \<le> x \<and> x < 2 ^ bits_Len x"
proof (induction x rule: bits_Len.induct)
  case (1 x)
  show ?case
  proof (cases "x div 2 = 0")
    case True
    with 1 have "x = 1" by linarith
    then show ?thesis by simp
  next
    case False
    then have pos: "0 < x div 2" by simp
    from 1 pos have ih: "2 ^ (bits_Len (x div 2) - 1) \<le> x div 2 \<and> x div 2 < 2 ^ bits_Len (x div 2)"
      by simp
    have bl: "bits_Len x = Suc (bits_Len (x div 2))" using 1(2) by simp
    have bp: "0 < bits_Len (x div 2)" using pos by simp
    then obtain m where m: "bits_Len (x div 2) = Suc m" by (cases "bits_Len (x div 2)") auto
    from ih m have "2 ^ m \<le> x div 2" "x div 2 < 2 * 2 ^ m" by simp_all
    then have "2 * 2 ^ m \<le> x" "x < 2 * (2 * 2 ^ m)" by linarith+
    then show ?thesis unfolding bl m by simp
  qed
qed

lemma bits_Len_pow2: "bits_Len (2 ^ k) = Suc k"
  by (induction k) simp_all

lemma bits_Len_pos: "0 < x \<Longrightarrow> 0 < bits_Len x"
  by simp

section \<open>The allocator: size classes and validation\<close>

lemma is_pow2_double: "0 < m \<Longrightarrow> is_pow2 (2 * m) = is_pow2 m"
proof
  assume "is_pow2 (2 * m)" and mp: "0 < m"
  then obtain k where k: "2 * m = (2::int) ^ k" by (auto simp: is_pow2_def)
  show "is_pow2 m"
  proof (cases k)
    case 0
    with k have "2 * m = 1" by simp
    then have False by presburger
    then show ?thesis ..
  next
    case (Suc j)
    with k have "m = 2 ^ j" by simp
    then show ?thesis by (auto simp: is_pow2_def)
  qed
next
  assume "is_pow2 m"
  then obtain k where "m = 2 ^ k" by (auto simp: is_pow2_def)
  then have "2 * m = 2 ^ Suc k" by simp
  then show "is_pow2 (2 * m)" unfolding is_pow2_def by blast
qed

lemma is_pow2_odd: "0 \<le> m \<Longrightarrow> is_pow2 (2 * m + 1) = (m = 0)"
proof
  assume "is_pow2 (2 * m + 1)" and mp: "0 \<le> m"
  then obtain k where k: "2 * m + 1 = (2::int) ^ k" by (auto simp: is_pow2_def)
  show "m = 0"
  proof (cases k)
    case 0
    with k show ?thesis by simp
  next
    case (Suc j)
    with k have "2 * m + 1 = 2 * 2 ^ j" by simp
    then have "even (2 * m + 1)" by (metis dvd_triv_left)
    then show ?thesis by simp
  qed
next
  assume "m = 0"
  then have "2 * m + 1 = 2 ^ 0" by simp
  then show "is_pow2 (2 * m + 1)" unfolding is_pow2_def by blast
qed

lemma pow2_and: "0 < c \<Longrightarrow> (c AND (c - 1) = 0) = is_pow2 c"
proof (induction "nat c" arbitrary: c rule: less_induct)
  case less
  show ?case
  proof (cases "even c")
    case True
    then obtain m where m: "c = 2 * m" by (elim evenE)
    with less.prems have mpos: "0 < m" by simp
    have d: "(c - 1) div 2 = m - 1" using m by simp
    have "c AND (c - 1) = 2 * (m AND (m - 1))"
      using and_int_rec [of c "c - 1"] True d m by simp
    moreover have "(m AND (m - 1) = 0) = is_pow2 m"
      using less.hyps [of m] mpos m by simp
    ultimately show ?thesis
      using is_pow2_double [OF mpos] m by simp
  next
    case False
    then obtain m where m: "c = 2 * m + 1" by (elim oddE)
    with less.prems have mpos: "0 \<le> m" by simp
    have "c AND (c - 1) = 2 * (m AND m)"
      using and_int_rec [of c "c - 1"] False m by simp
    then have "c AND (c - 1) = 2 * m" by simp
    then show ?thesis
      using is_pow2_odd [OF mpos] m by simp
  qed
qed

lemma msb_pow2: "k < 63 \<Longrightarrow> msb (2 ^ k) = int k"
proof -
  assume k: "k < 63"
  have "(2::int) ^ k > 0" by simp
  have nk: "nat (2 ^ k) = (2::nat) ^ k" by (simp add: nat_power_eq)
  have "wrap (int k) = int k" using k by (intro wrap_id') simp_all
  then show ?thesis
    by (simp add: msb_def go_sub_def nk bits_Len_pow2 del: bits_Len.simps)
qed

lemma msb_bounds:
  assumes "1 \<le> sz" "sz \<le> 65536"
  shows "0 \<le> msb sz \<and> msb sz \<le> 16 \<and> 2 ^ nat (msb sz) \<le> sz \<and> sz < 2 ^ Suc (nat (msb sz))"
proof -
  define x where "x = nat sz"
  have xpos: "0 < x" and szx: "sz = int x" using assms by (simp_all add: x_def)
  obtain k where k: "bits_Len x = Suc k"
    using bits_Len_pos [OF xpos] by (cases "bits_Len x") auto
  from bits_Len_bounds [OF xpos] k have b: "2 ^ k \<le> x" "x < 2 ^ Suc k" by simp_all
  have "x \<le> 2 ^ 16" using assms(2) szx by simp
  with b(1) have "(2::nat) ^ k \<le> 2 ^ 16" by linarith
  then have k16: "k \<le> 16" by (rule power_le_imp_le_exp [rotated]) simp
  then have "wrap (int k) = int k" by (intro wrap_id') simp_all
  then have m: "msb sz = int k"
    using assms(1) k by (simp add: msb_def go_sub_def x_def del: bits_Len.simps)
  have "(2::int) ^ k \<le> sz" "sz < 2 ^ Suc k"
    using b szx by (metis of_nat_le_iff of_nat_numeral of_nat_power, metis of_nat_less_iff of_nat_numeral of_nat_power)
  then show ?thesis using m k16 by simp
qed

lemma size_class_index:
  assumes "1 \<le> sz" "sz \<le> 65536"
    and "idx = (if sz \<noteq> push_bit (nat (msb sz)) 1 then go_add (msb sz) 1 else msb sz)"
  shows "0 \<le> idx \<and> idx \<le> 16 \<and> sz \<le> 2 ^ nat idx \<and> (\<forall>j. j < nat idx \<longrightarrow> 2 ^ j < sz)"
proof -
  define k where "k = nat (msb sz)"
  from msb_bounds [OF assms(1,2)]
  have mk: "msb sz = int k" and k16: "k \<le> 16" and lo: "2 ^ k \<le> sz" and hi: "sz < 2 ^ Suc k"
    by (auto simp: k_def)
  have lower: "j < k \<Longrightarrow> (2::int) ^ j < sz" for j
  proof -
    assume "j < k"
    then have "(2::int) ^ j < 2 ^ k" by simp
    with lo show ?thesis by linarith
  qed
  have idx: "idx = (if sz \<noteq> 2 ^ k then go_add (int k) 1 else int k)"
    using assms(3) unfolding mk by (simp only: nat_int push_bit_of_1)
  show ?thesis
  proof (cases "sz = 2 ^ k")
    case True
    then have "idx = int k" using idx by simp
    then show ?thesis using True k16 lower by simp
  next
    case False
    have "k \<noteq> 16"
    proof
      assume "k = 16"
      with lo assms(2) have "sz = 2 ^ k" by simp
      with False show False ..
    qed
    with k16 have k15: "k < 16" by simp
    then have "wrap (int k + 1) = int k + 1" by (intro wrap_id') simp_all
    then have i: "idx = int k + 1" using idx False by (simp add: go_add_def)
    then have ni: "nat idx = Suc k" by simp
    have "j < Suc k \<Longrightarrow> (2::int) ^ j < sz" for j
    proof -
      assume "j < Suc k"
      then have "j < k \<or> j = k" by auto
      then show ?thesis using lower lo False by auto
    qed
    then show ?thesis using i ni hi k15 by simp
  qed
qed

lemma smallest_pow2_geqI:
  assumes "sz \<le> 2 ^ i" "\<forall>j. j < i \<longrightarrow> 2 ^ j < sz"
  shows "smallest_pow2_geq sz (2 ^ i)"
proof -
  have "2 ^ i \<le> d" if d: "is_pow2 d" "sz \<le> d" for d
  proof -
    from d obtain j where j: "d = 2 ^ j" by (auto simp: is_pow2_def)
    have "\<not> j < i" using assms(2) d(2) j by force
    then have "i \<le> j" by simp
    then show ?thesis using j by simp
  qed
  moreover have "is_pow2 (2 ^ i)" unfolding is_pow2_def by blast
  ultimately show ?thesis using assms(1) by (simp add: smallest_pow2_geq_def)
qed

lemma alloc_inv_pool:
  "alloc_inv h a \<Longrightarrow> i < 17 \<Longrightarrow> pool_ok h i (buffers a ! i)"
  by (simp add: alloc_inv_def list_all_iff)

lemma alloc_inv_length: "alloc_inv h a \<Longrightarrow> length (buffers a) = 17"
  by (simp add: alloc_inv_def)

lemma Pool_Get_ok:
  assumes "pool_ok h i p"
  shows "\<exists>ar q p' h'. Pool_Get h p = Inr (Slice ar q (2 ^ i) (2 ^ i), p', h')"
proof (cases "cached p")
  case Nil
  then show ?thesis using assms
    by (simp add: Pool_Get_def pool_ok_def make_slice_def nat_power_eq)
next
  case (Cons x xs)
  with assms have x: "len x = 2 ^ i" "cap x = 2 ^ i" by (simp_all add: pool_ok_def)
  then obtain ar q l c where s: "x = Slice ar q l c" by (cases x) auto
  with x have "int l = 2 ^ i" "int c = 2 ^ i" by simp_all
  then have "l = 2 ^ i" "c = 2 ^ i" by (metis of_nat_eq_iff of_nat_numeral of_nat_power)+
  then show ?thesis using Cons s by (simp add: Pool_Get_def)
qed

text \<open>
  Claim C1. On an allocator that satisfies its invariant, \<^verbatim>\<open>Get(sz)\<close> returns normally;
  the slice it returns is \<^verbatim>\<open>nil\<close> exactly when \<open>sz \<le> 0\<close> or \<open>sz > 65536\<close>; and for
  \<open>1 \<le> sz \<le> 65536\<close> the slice has length \<open>sz\<close> and its capacity is the smallest power
  of two that is at least \<open>sz\<close>.
\<close>

theorem Allocator_Get_size_class:
  assumes "alloc_inv h a"
  shows "\<exists>s a' h'. Allocator_Get h a sz = Inr (s, a', h') \<and>
           (s = NilSlice \<longleftrightarrow> sz \<le> 0 \<or> sz > 65536) \<and>
           (1 \<le> sz \<and> sz \<le> 65536 \<longrightarrow> len s = sz \<and> smallest_pow2_geq sz (cap s))"
proof (cases "sz \<le> 0 \<or> sz > 65536")
  case True
  then show ?thesis by (auto simp: Allocator_Get_def MaxSize_def)
next
  case False
  then have r: "1 \<le> sz" "sz \<le> 65536" by simp_all
  define idx where "idx = (if sz \<noteq> push_bit (nat (msb sz)) 1 then go_add (msb sz) 1 else msb sz)"
  from size_class_index [OF r idx_def]
  have i: "0 \<le> idx" "idx \<le> 16" "sz \<le> 2 ^ nat idx" "\<forall>j. j < nat idx \<longrightarrow> 2 ^ j < sz"
    by simp_all
  have "nat idx < 17" using i by simp
  from Pool_Get_ok [OF alloc_inv_pool [OF assms this]]
  obtain ar q p' h' where g: "Pool_Get h (buffers a ! nat idx) = Inr (Slice ar q (2 ^ nat idx) (2 ^ nat idx), p', h')"
    by blast
  have rs: "reslice (Slice ar q (2 ^ nat idx) (2 ^ nat idx)) 0 sz = Inr (Slice ar q (nat sz) (2 ^ nat idx))"
    using r i(3) by (simp add: reslice_def)
  have idx_eq: "sz \<noteq> 2 ^ nat (msb sz) \<Longrightarrow> go_add (msb sz) 1 = idx"
    "sz = 2 ^ nat (msb sz) \<Longrightarrow> msb sz = idx"
    by (simp_all add: idx_def)
  have "Allocator_Get h a sz = Inr (Slice ar q (nat sz) (2 ^ nat idx), a\<lparr>buffers := (buffers a)[nat idx := p']\<rparr>, h')"
  proof (cases "sz = 2 ^ nat (msb sz)")
    case True
    show ?thesis
      using False i(1,2) alloc_inv_length [OF assms] g rs True idx_eq(2) [OF True]
      by (simp add: Allocator_Get_def MaxSize_def Let_def)
  next
    case ne: False
    show ?thesis
      using False i(1,2) alloc_inv_length [OF assms] g rs ne idx_eq(1) [OF ne]
      by (simp add: Allocator_Get_def MaxSize_def Let_def)
  qed
  moreover have "smallest_pow2_geq sz (cap (Slice ar q (nat sz) (2 ^ nat idx)))"
    using smallest_pow2_geqI [OF i(3,4)] by simp
  ultimately show ?thesis using r by simp
qed

lemma alloc_inv_NewAllocator: "alloc_inv [] NewAllocator"
  by code_simp

theorem Allocator_Get_size_class_witness:
  "alloc_inv [] NewAllocator \<and>
   (\<exists>s a' h'. Allocator_Get [] NewAllocator 3 = Inr (s, a', h') \<and> s \<noteq> NilSlice \<and>
      len s = 3 \<and> smallest_pow2_geq 3 (cap s))"
proof -
  have i: "alloc_inv [] NewAllocator" by code_simp
  show ?thesis using i Allocator_Get_size_class [OF i, of 3] by auto
qed

lemma pow2_le_MaxSize: "k \<le> 16 \<Longrightarrow> (2::int) ^ k \<le> 65536"
proof -
  assume "k \<le> 16"
  then have "(2::int) ^ k \<le> 2 ^ 16" by (intro power_increasing) simp_all
  then show ?thesis by simp
qed

lemma Allocator_Put_reject:
  assumes "buf = NilSlice \<or> cap buf < 1 \<or> cap buf > 65536 \<or> \<not> is_pow2 (cap buf)"
  shows "\<exists>e. Allocator_Put a buf = Inr (Some e, a)"
proof (cases "buf = NilSlice \<or> cap buf < 1 \<or> cap buf > 65536")
  case True
  then show ?thesis by (auto simp: Allocator_Put_def MaxSize_def Let_def)
next
  case False
  then have c: "1 \<le> cap buf" "cap buf \<le> 65536" and np: "\<not> is_pow2 (cap buf)"
    using assms by auto
  have "wrap (cap buf - 1) = cap buf - 1" using c by (intro wrap_id') simp_all
  moreover have "cap buf AND (cap buf - 1) \<noteq> 0" using pow2_and [of "cap buf"] c np by simp
  ultimately show ?thesis using False
    by (simp add: Allocator_Put_def MaxSize_def Let_def go_sub_def)
qed

lemma Allocator_Put_accept:
  assumes "length (buffers a) = 17" "k \<le> 16"
  shows "Allocator_Put a (Slice ar p l (2 ^ k)) =
         Inr (None, a\<lparr>buffers := (buffers a)[k := Pool_Put (buffers a ! k) (Slice ar p (2 ^ k) (2 ^ k))]\<rparr>)"
proof -
  define c :: int where "c = 2 ^ k"
  have cc: "cap (Slice ar p l (2 ^ k)) = c" by (simp add: c_def)
  have c1: "0 < c" "c \<le> 65536" using pow2_le_MaxSize [OF assms(2)] by (simp_all add: c_def)
  have w: "wrap (c - 1) = c - 1" using c1 by (intro wrap_id') simp_all
  have "is_pow2 c" unfolding is_pow2_def c_def by blast
  then have a0: "c AND (c - 1) = 0" using pow2_and [of c] c1 by simp
  have m: "msb c = int k" unfolding c_def using assms(2) by (intro msb_pow2) simp
  have rs: "reslice (Slice ar p l (2 ^ k)) 0 c = Inr (Slice ar p (2 ^ k) (2 ^ k))"
    by (simp add: reslice_def c_def nat_power_eq)
  show ?thesis
    unfolding Allocator_Put_def cc Let_def
    using c1 w a0 m rs assms by (simp add: MaxSize_def go_sub_def)
qed

text \<open>
  Claim C4. On an allocator with its 17 pools, \<^verbatim>\<open>Put(buf)\<close> returns an error and leaves
  every pool as it was when \<open>buf\<close> is \<^verbatim>\<open>nil\<close>, when its capacity is outside
  \<open>[1, 65536]\<close>, or when its capacity is not a power of two. When the capacity is
  \<open>2 ^ k\<close> with \<open>k \<le> 16\<close> (65536 included), \<^verbatim>\<open>Put\<close> returns no error and puts the
  slice, its length reset to its capacity, into pool \<open>k\<close>.
\<close>

theorem Allocator_Put_validation:
  assumes "length (buffers a) = 17"
  shows "(buf = NilSlice \<or> cap buf < 1 \<or> cap buf > 65536 \<or> \<not> is_pow2 (cap buf) \<longrightarrow>
            (\<exists>e. Allocator_Put a buf = Inr (Some e, a))) \<and>
         (\<forall>ar p l k. buf = Slice ar p l (2 ^ k) \<and> k \<le> 16 \<longrightarrow>
            Allocator_Put a buf =
              Inr (None, a\<lparr>buffers := (buffers a)[k := Pool_Put (buffers a ! k) (Slice ar p (2 ^ k) (2 ^ k))]\<rparr>))"
  using Allocator_Put_reject [of buf a] Allocator_Put_accept [OF assms] by blast

lemma not_pow2_3: "\<not> is_pow2 3"
  using is_pow2_odd [of 1] by simp

theorem Allocator_Put_validation_witness:
  "length (buffers NewAllocator) = 17 \<and> \<not> is_pow2 (cap (Slice 0 0 3 3)) \<and>
   (\<exists>e. Allocator_Put NewAllocator (Slice 0 0 3 3) = Inr (Some e, NewAllocator)) \<and>
   Allocator_Put NewAllocator (Slice 0 0 3 4) =
     Inr (None, NewAllocator\<lparr>buffers :=
            (buffers NewAllocator)[2 := Pool_Put (buffers NewAllocator ! 2) (Slice 0 0 4 4)]\<rparr>)"
proof -
  have l: "length (buffers NewAllocator) = 17" by (simp add: NewAllocator_def)
  have n: "\<not> is_pow2 (cap (Slice 0 0 3 3))" using not_pow2_3 by simp
  have r: "\<exists>e. Allocator_Put NewAllocator (Slice 0 0 3 3) = Inr (Some e, NewAllocator)"
    using n Allocator_Put_validation [OF l, of "Slice 0 0 3 3"] by blast
  have "Allocator_Put NewAllocator (Slice 0 0 3 (2 ^ 2)) =
     Inr (None, NewAllocator\<lparr>buffers :=
            (buffers NewAllocator)[2 := Pool_Put (buffers NewAllocator ! 2) (Slice 0 0 (2 ^ 2) (2 ^ 2))]\<rparr>)"
    by (rule Allocator_Put_validation [OF l, THEN conjunct2, rule_format]) (rule conjI, rule refl, simp)
  then have a: "Allocator_Put NewAllocator (Slice 0 0 3 4) =
     Inr (None, NewAllocator\<lparr>buffers :=
            (buffers NewAllocator)[2 := Pool_Put (buffers NewAllocator ! 2) (Slice 0 0 4 4)]\<rparr>)"
    by simp
  show ?thesis using l n r a by blast
qed

section \<open>Heaps and buffers: basic facts\<close>

lemma heap_le_refl: "heap_le h h"
  by (simp add: heap_le_def)

lemma heap_le_trans: "heap_le h h1 \<Longrightarrow> heap_le h1 h2 \<Longrightarrow> heap_le h h2"
  by (auto simp: heap_le_def)

lemma heap_le_append: "heap_le h (h @ xs)"
  by (simp add: heap_le_def nth_append)

lemma heap_le_update: "length x = length (h ! a) \<Longrightarrow> heap_le h (h[a := x])"
  by (cases "a < length h") (auto simp: heap_le_def nth_list_update)

lemma wf_slice_mono: "heap_le h h' \<Longrightarrow> wf_slice h s \<Longrightarrow> wf_slice h' s"
  by (cases s) (auto simp: heap_le_def)

lemma pool_ok_mono: "heap_le h h' \<Longrightarrow> pool_ok h i p \<Longrightarrow> pool_ok h' i p"
  by (auto simp: pool_ok_def list_all_iff intro: wf_slice_mono)

lemma alloc_inv_mono: "heap_le h h' \<Longrightarrow> alloc_inv h a \<Longrightarrow> alloc_inv h' a"
  by (auto simp: alloc_inv_def list_all_iff intro: pool_ok_mono)

lemma wf_slice_len: "wf_slice h s \<Longrightarrow> 0 \<le> len s \<and> len s \<le> cap s \<and> cap s \<le> max_int"
  by (cases s) (auto simp: max_int_def)

lemma buf_inv_bounds:
  assumes "buf_inv h b"
  shows "0 \<le> start b" "start b \<le> end_idx b" "end_idx b \<le> len (data b)"
    "len (data b) \<le> max_int" "wf_slice h (data b)"
  using assms wf_slice_len [of h "data b"] by (auto simp: buf_inv_def)

lemma Len_inv: "buf_inv h b \<Longrightarrow> Len b = end_idx b - start b"
  unfolding Len_def go_sub_def
  by (rule wrap_id) (use buf_inv_bounds [of h b] in \<open>simp add: is_int_def min_int_def max_int_def\<close>)

lemma free_inv: "buf_inv h b \<Longrightarrow> go_sub (len (data b)) (end_idx b) = len (data b) - end_idx b"
  unfolding go_sub_def
  by (rule wrap_id) (use buf_inv_bounds [of h b] in \<open>simp add: is_int_def min_int_def max_int_def\<close>)

lemma go_add_id: "0 \<le> x \<Longrightarrow> 0 \<le> y \<Longrightarrow> x + y \<le> max_int \<Longrightarrow> go_add x y = x + y"
  unfolding go_add_def by (rule wrap_id) (simp add: is_int_def min_int_def max_int_def)

lemma buf_inv_zero: "buf_inv h zero_Buffer"
  by (simp add: buf_inv_def zero_Buffer_def)

lemma buf_inv_mono: "heap_le h h' \<Longrightarrow> buf_inv h b \<Longrightarrow> buf_inv h' b"
  by (auto simp: buf_inv_def intro: wf_slice_mono)

text \<open>
  Claim C10. For every \<open>sz < 0\<close>, \<^verbatim>\<open>NewSize(sz)\<close> is \<^verbatim>\<open>NewSize(0)\<close>: it returns
  normally the empty buffer (\<^verbatim>\<open>nil\<close> data, both indexes 0, not pooled) and leaves the
  heap and the allocator as they were.
\<close>
theorem NewSize_negative:
  "sz < 0 \<Longrightarrow> NewSize w sz = NewSize w 0 \<and>
     NewSize w sz = Inr (\<lparr>data = NilSlice, start = 0, end_idx = 0, pooled = False\<rparr>, w)"
  by (simp add: NewSize_def zero_Buffer_def)

theorem NewSize_negative_witness:
  "(- 5 :: int) < 0 \<and> NewSize \<lparr>heap = [], defaultAllocator = NewAllocator\<rparr> (- 5) =
      NewSize \<lparr>heap = [], defaultAllocator = NewAllocator\<rparr> 0 \<and>
   NewSize \<lparr>heap = [], defaultAllocator = NewAllocator\<rparr> (- 5) =
      Inr (\<lparr>data = NilSlice, start = 0, end_idx = 0, pooled = False\<rparr>,
           \<lparr>heap = [], defaultAllocator = NewAllocator\<rparr>)"
proof -
  have n: "(- 5 :: int) < 0" by simp
  show ?thesis
    using n NewSize_negative [OF n, of "\<lparr>heap = [], defaultAllocator = NewAllocator\<rparr>"] by blast
qed

text \<open>
  Claim C6 says that a negative argument to \<^verbatim>\<open>Extend\<close> or to \<^verbatim>\<open>ReadBytes\<close> is a panic.
  \<^verbatim>\<open>ReadBytes(-1)\<close> returns normally, with the error \<^verbatim>\<open>"buffer: negative length"\<close>.
\<close>
theorem ReadBytes_negative_counterexample:
  "ReadBytes [] zero_Buffer (- 1) =
     Inr (NilSlice, Some (ErrorsNew ''buffer: negative length''), zero_Buffer, [])"
  by (simp add: ReadBytes_def)

text \<open>
  Claim C6, amended. For every \<open>n < 0\<close>, \<^verbatim>\<open>Extend(n)\<close> panics, and \<^verbatim>\<open>ReadBytes(n)\<close>
  returns normally a \<^verbatim>\<open>nil\<close> slice and the error \<^verbatim>\<open>"buffer: negative length"\<close>, leaving
  the buffer and the heap unchanged.
\<close>

theorem negative_length_argument:
  "n < 0 \<Longrightarrow> Extend h b n = Inl NegativeExtend \<and>
     ReadBytes h b n = Inr (NilSlice, Some (ErrorsNew ''buffer: negative length''), b, h)"
  by (simp add: Extend_def ReadBytes_def)

theorem negative_length_argument_witness:
  "(- 1 :: int) < 0 \<and> Extend [] zero_Buffer (- 1) = Inl NegativeExtend \<and>
     ReadBytes [] zero_Buffer (- 1) =
       Inr (NilSlice, Some (ErrorsNew ''buffer: negative length''), zero_Buffer, [])"
proof -
  have n: "(- 1 :: int) < 0" by simp
  show ?thesis using n negative_length_argument [OF n, of "[]" zero_Buffer] by blast
qed

section \<open>Construction and release\<close>

lemma alloc_inv_iff:
  "alloc_inv h a \<longleftrightarrow> length (buffers a) = 17 \<and> (\<forall>i<17. pool_ok h i (buffers a ! i))"
  by (auto simp: alloc_inv_def list_all_iff)

lemma pow2_le_max_int: "i \<le> 16 \<Longrightarrow> (2::int) ^ i \<le> max_int"
  using pow2_le_MaxSize [of i] by (simp add: max_int_def)

lemma Pool_Get_inv:
  assumes "pool_ok h i p" "i \<le> 16"
  shows "\<exists>ar q p' h'. Pool_Get h p = Inr (Slice ar q (2 ^ i) (2 ^ i), p', h') \<and>
           heap_le h h' \<and> pool_ok h' i p' \<and> wf_slice h' (Slice ar q (2 ^ i) (2 ^ i))"
proof (cases "cached p")
  case Nil
  have m: "int (2 ^ i) \<le> max_int" using pow2_le_max_int [OF assms(2)] by simp
  have "Pool_Get h p = Inr (Slice (length h) 0 (2 ^ i) (2 ^ i), p, h @ [replicate (2 ^ i) 0])"
    using Nil assms(1) by (simp add: Pool_Get_def pool_ok_def make_slice_def nat_power_eq)
  moreover have "pool_ok (h @ [replicate (2 ^ i) 0]) i p"
    using pool_ok_mono [OF heap_le_append assms(1)] .
  moreover have "wf_slice (h @ [replicate (2 ^ i) 0]) (Slice (length h) 0 (2 ^ i) (2 ^ i))"
    using m by simp
  ultimately show ?thesis using heap_le_append by blast
next
  case (Cons x xs)
  with assms have x: "len x = 2 ^ i" "cap x = 2 ^ i" "wf_slice h x"
    and xs: "list_all (\<lambda>s. wf_slice h s \<and> len s = 2 ^ i \<and> cap s = 2 ^ i) xs"
    and ns: "new_size p = 2 ^ i"
    by (simp_all add: pool_ok_def)
  obtain ar q l c where s: "x = Slice ar q l c" using x(1) by (cases x) auto
  with x have "int l = 2 ^ i" "int c = 2 ^ i" by simp_all
  then have lc: "l = 2 ^ i" "c = 2 ^ i" by (metis of_nat_eq_iff of_nat_numeral of_nat_power)+
  have "Pool_Get h p = Inr (Slice ar q (2 ^ i) (2 ^ i), p\<lparr>cached := xs\<rparr>, h)"
    using Cons s lc by (simp add: Pool_Get_def)
  moreover have "pool_ok h i (p\<lparr>cached := xs\<rparr>)" using xs ns by (simp add: pool_ok_def)
  moreover have "wf_slice h (Slice ar q (2 ^ i) (2 ^ i))" using x(3) s lc by simp
  ultimately show ?thesis using heap_le_refl by blast
qed

lemma alloc_inv_update:
  assumes "alloc_inv h a" "heap_le h h'" "pool_ok h' i p'"
  shows "alloc_inv h' (a\<lparr>buffers := (buffers a)[i := p']\<rparr>)"
proof -
  have "pool_ok h' j ((buffers a)[i := p'] ! j)" if "j < 17" for j
  proof (cases "j = i")
    case True
    then show ?thesis using assms that by (simp add: alloc_inv_iff)
  next
    case False
    then show ?thesis using assms that pool_ok_mono [OF assms(2)] by (simp add: alloc_inv_iff)
  qed
  then show ?thesis using assms(1) by (simp add: alloc_inv_iff)
qed

lemma Allocator_Get_in_range:
  assumes "alloc_inv h a" "1 \<le> sz" "sz \<le> 65536"
  shows "\<exists>ar q i a' h'. Allocator_Get h a sz = Inr (Slice ar q (nat sz) (2 ^ i), a', h') \<and>
           i \<le> 16 \<and> sz \<le> 2 ^ i \<and> (\<forall>j. j < i \<longrightarrow> 2 ^ j < sz) \<and>
           heap_le h h' \<and> alloc_inv h' a' \<and> wf_slice h' (Slice ar q (nat sz) (2 ^ i))"
proof -
  define idx where "idx = (if sz \<noteq> push_bit (nat (msb sz)) 1 then go_add (msb sz) 1 else msb sz)"
  from size_class_index [OF assms(2,3) idx_def]
  have i: "0 \<le> idx" "idx \<le> 16" "sz \<le> 2 ^ nat idx" "\<forall>j. j < nat idx \<longrightarrow> 2 ^ j < sz"
    by simp_all
  have n17: "nat idx < 17" and n16: "nat idx \<le> 16" using i by simp_all
  from Pool_Get_inv [OF alloc_inv_pool [OF assms(1) n17] n16]
  obtain ar q p' h' where g: "Pool_Get h (buffers a ! nat idx) = Inr (Slice ar q (2 ^ nat idx) (2 ^ nat idx), p', h')"
    and hl: "heap_le h h'" and po: "pool_ok h' (nat idx) p'"
    and wf: "wf_slice h' (Slice ar q (2 ^ nat idx) (2 ^ nat idx))"
    by blast
  have szn: "nat sz \<le> 2 ^ nat idx"
    using i(3) assms(2) by (metis nat_le_iff of_nat_numeral of_nat_power)
  have rs: "reslice (Slice ar q (2 ^ nat idx) (2 ^ nat idx)) 0 sz = Inr (Slice ar q (nat sz) (2 ^ nat idx))"
    using assms(2) i(3) by (simp add: reslice_def)
  have idx_eq: "sz \<noteq> 2 ^ nat (msb sz) \<Longrightarrow> go_add (msb sz) 1 = idx"
    "sz = 2 ^ nat (msb sz) \<Longrightarrow> msb sz = idx"
    by (simp_all add: idx_def)
  have nr: "\<not> (sz \<le> 0 \<or> sz > 65536)" using assms(2,3) by simp
  have "Allocator_Get h a sz = Inr (Slice ar q (nat sz) (2 ^ nat idx), a\<lparr>buffers := (buffers a)[nat idx := p']\<rparr>, h')"
  proof (cases "sz = 2 ^ nat (msb sz)")
    case True
    show ?thesis
      using nr i(1,2) alloc_inv_length [OF assms(1)] g rs True idx_eq(2) [OF True]
      by (simp add: Allocator_Get_def MaxSize_def Let_def)
  next
    case ne: False
    show ?thesis
      using nr i(1,2) alloc_inv_length [OF assms(1)] g rs ne idx_eq(1) [OF ne]
      by (simp add: Allocator_Get_def MaxSize_def Let_def)
  qed
  moreover have "alloc_inv h' (a\<lparr>buffers := (buffers a)[nat idx := p']\<rparr>)"
    using alloc_inv_update [OF assms(1) hl po] .
  moreover have "wf_slice h' (Slice ar q (nat sz) (2 ^ nat idx))"
    using wf szn by simp
  ultimately show ?thesis using n16 i(3,4) hl by blast
qed

lemma Allocator_Get_out_of_range:
  "sz \<le> 0 \<or> sz > 65536 \<Longrightarrow> Allocator_Get h a sz = Inr (NilSlice, a, h)"
  by (auto simp: Allocator_Get_def MaxSize_def)

lemma world_eta: "\<lparr>heap = heap w, defaultAllocator = defaultAllocator w\<rparr> = (w :: world)"
  by simp

lemma NewSize_pooled:
  assumes "alloc_inv (heap w) (defaultAllocator w)" "1 \<le> sz" "sz \<le> 65536"
  shows "\<exists>ar q i w'. NewSize w sz =
            Inr (\<lparr>data = Slice ar q (nat sz) (2 ^ i), start = 0, end_idx = 0, pooled = True\<rparr>, w') \<and>
           i \<le> 16 \<and> sz \<le> 2 ^ i \<and> heap_le (heap w) (heap w') \<and>
           alloc_inv (heap w') (defaultAllocator w') \<and>
           wf_slice (heap w') (Slice ar q (nat sz) (2 ^ i)) \<and>
           Allocator_Get (heap w) (defaultAllocator w) sz =
             Inr (Slice ar q (nat sz) (2 ^ i), defaultAllocator w', heap w')"
proof -
  from Allocator_Get_in_range [OF assms]
  obtain ar q i a' h' where
    g: "Allocator_Get (heap w) (defaultAllocator w) sz = Inr (Slice ar q (nat sz) (2 ^ i), a', h')"
    and i: "i \<le> 16" "sz \<le> 2 ^ i"
    and inv: "heap_le (heap w) h'" "alloc_inv h' a'" "wf_slice h' (Slice ar q (nat sz) (2 ^ i))"
    by blast
  have szn: "sz \<le> int (2 ^ i)" using i(2) by simp
  have rs: "reslice (Slice ar q (nat sz) (2 ^ i)) 0 sz = Inr (Slice ar q (nat sz) (2 ^ i))"
    using assms(2) szn by (simp add: reslice_def)
  have "NewSize w sz =
      Inr (\<lparr>data = Slice ar q (nat sz) (2 ^ i), start = 0, end_idx = 0, pooled = True\<rparr>,
           \<lparr>heap = h', defaultAllocator = a'\<rparr>)"
    using assms(2) g rs by (simp add: NewSize_def alloc_Get_def zero_Buffer_def)
  then show ?thesis using i inv g by force
qed

lemma NewSize_direct:
  assumes "65536 < sz"
  shows "NewSize w sz =
           Inr (\<lparr>data = Slice (length (heap w)) 0 (nat sz) (nat sz), start = 0, end_idx = 0,
                  pooled = False\<rparr>,
                w\<lparr>heap := heap w @ [replicate (nat sz) 0]\<rparr>)"
proof -
  have "Allocator_Get (heap w) (defaultAllocator w) sz = Inr (NilSlice, defaultAllocator w, heap w)"
    using assms by (intro Allocator_Get_out_of_range) simp
  then show ?thesis
    using assms by (simp add: NewSize_def alloc_Get_def zero_Buffer_def make_slice_def)
qed

lemma NewSize_zero:
  "NewSize w 0 = Inr (\<lparr>data = NilSlice, start = 0, end_idx = 0, pooled = False\<rparr>, w)"
  by (simp add: NewSize_def zero_Buffer_def)

text \<open>
  Claim C7. With the default allocator in its invariant, \<^verbatim>\<open>NewSize(sz)\<close> returns normally
  for every \<open>sz\<close>. For \<open>1 \<le> sz \<le> 65536\<close> the buffer is pooled, empty, and its data is
  the slice of length \<open>sz\<close> that the allocator's \<^verbatim>\<open>Get\<close> returned. For \<open>sz > 65536\<close> the
  data is a fresh array of exactly \<open>sz\<close> zero bytes and the buffer is not pooled. For
  \<open>sz = 0\<close> the buffer is empty, with \<^verbatim>\<open>nil\<close> data, and not pooled.
\<close>
theorem NewSize_never_fails:
  assumes "alloc_inv (heap w) (defaultAllocator w)"
  shows "(\<exists>b w'. NewSize w sz = Inr (b, w')) \<and>
         (1 \<le> sz \<and> sz \<le> 65536 \<longrightarrow>
            (\<exists>b w' a'. NewSize w sz = Inr (b, w') \<and> pooled b \<and> len (data b) = sz \<and>
               start b = 0 \<and> end_idx b = 0 \<and>
               Allocator_Get (heap w) (defaultAllocator w) sz = Inr (data b, a', heap w'))) \<and>
         (65536 < sz \<longrightarrow>
            NewSize w sz =
              Inr (\<lparr>data = Slice (length (heap w)) 0 (nat sz) (nat sz), start = 0, end_idx = 0,
                     pooled = False\<rparr>,
                   w\<lparr>heap := heap w @ [replicate (nat sz) 0]\<rparr>)) \<and>
         NewSize w 0 = Inr (\<lparr>data = NilSlice, start = 0, end_idx = 0, pooled = False\<rparr>, w)"
proof -
  have p: "\<exists>b w' a'. NewSize w sz = Inr (b, w') \<and> pooled b \<and> len (data b) = sz \<and>
               start b = 0 \<and> end_idx b = 0 \<and>
               Allocator_Get (heap w) (defaultAllocator w) sz = Inr (data b, a', heap w')"
    if r: "1 \<le> sz" "sz \<le> 65536"
  proof -
    from NewSize_pooled [OF assms r] obtain ar q i w' where
      n: "NewSize w sz =
            Inr (\<lparr>data = Slice ar q (nat sz) (2 ^ i), start = 0, end_idx = 0, pooled = True\<rparr>, w')"
      and g: "Allocator_Get (heap w) (defaultAllocator w) sz =
             Inr (Slice ar q (nat sz) (2 ^ i), defaultAllocator w', heap w')"
      by blast
    show ?thesis using n g r(1) by simp
  qed
  have "\<exists>b w'. NewSize w sz = Inr (b, w')"
  proof -
    consider "sz < 0" | "sz = 0" | "1 \<le> sz \<and> sz \<le> 65536" | "65536 < sz" by linarith
    then show ?thesis
    proof cases
      case 1
      then show ?thesis by (simp add: NewSize_def)
    next
      case 2
      then show ?thesis by (simp add: NewSize_zero)
    next
      case 3
      then show ?thesis using p by blast
    next
      case 4
      then show ?thesis using NewSize_direct by blast
    qed
  qed
  then show ?thesis using p NewSize_direct NewSize_zero by blast
qed

theorem NewSize_never_fails_witness:
  "alloc_inv (heap \<lparr>heap = [], defaultAllocator = NewAllocator\<rparr>)
     (defaultAllocator \<lparr>heap = [], defaultAllocator = NewAllocator\<rparr>) \<and>
   (\<exists>b w'. NewSize \<lparr>heap = [], defaultAllocator = NewAllocator\<rparr> 10 = Inr (b, w') \<and>
      pooled b \<and> len (data b) = 10)"
proof -
  let ?w = "\<lparr>heap = [], defaultAllocator = NewAllocator\<rparr>"
  have i: "alloc_inv (heap ?w) (defaultAllocator ?w)"
    by (simp add: alloc_inv_NewAllocator)
  have r: "(1::int) \<le> 10 \<and> (10::int) \<le> 65536" by simp
  from NewSize_never_fails [OF i, of 10, THEN conjunct2, THEN conjunct1, THEN mp, OF r]
  obtain b w' where "NewSize ?w 10 = Inr (b, w')" "pooled b" "len (data b) = 10"
    by blast
  then show ?thesis using i by blast
qed

lemma Allocator_Put_total: "\<exists>e a'. Allocator_Put a buf = Inr (e, a')"
  by (cases buf) (auto simp: Allocator_Put_def Let_def reslice_def)

lemma pow2_le_MaxSize_D: "(2::int) ^ k \<le> 65536 \<Longrightarrow> k \<le> 16"
proof -
  assume "(2::int) ^ k \<le> 65536"
  then have "(2::int) ^ k \<le> 2 ^ 16" by simp
  then show ?thesis by (rule power_le_imp_le_exp [rotated]) simp
qed

lemma Allocator_Put_cases:
  assumes "length (buffers a) = 17"
  shows "(\<exists>e. Allocator_Put a buf = Inr (Some e, a)) \<or>
         (\<exists>ar p l k. buf = Slice ar p l (2 ^ k) \<and> k \<le> 16 \<and>
            Allocator_Put a buf =
              Inr (None, a\<lparr>buffers := (buffers a)[k := Pool_Put (buffers a ! k) (Slice ar p (2 ^ k) (2 ^ k))]\<rparr>))"
proof (cases "buf = NilSlice \<or> cap buf < 1 \<or> cap buf > 65536 \<or> \<not> is_pow2 (cap buf)")
  case True
  then show ?thesis using Allocator_Put_reject by blast
next
  case False
  then obtain ar p l c where s: "buf = Slice ar p l c" by (cases buf) auto
  from False s obtain k where k: "int c = 2 ^ k" by (auto simp: is_pow2_def)
  then have ck: "c = 2 ^ k" by (metis of_nat_eq_iff of_nat_numeral of_nat_power)
  have "(2::int) ^ k \<le> 65536" using False s k by simp
  then have "k \<le> 16" by (rule pow2_le_MaxSize_D)
  then show ?thesis using Allocator_Put_accept [OF assms, of k ar p l] s ck by blast
qed

lemma Allocator_Put_inv:
  assumes "alloc_inv h a" "wf_slice h buf" "Allocator_Put a buf = Inr (e, a')"
  shows "alloc_inv h a'"
proof -
  from Allocator_Put_cases [OF alloc_inv_length [OF assms(1)], of buf]
  consider "a' = a"
    | ar p l k where "buf = Slice ar p l (2 ^ k)" "k \<le> 16"
      "a' = a\<lparr>buffers := (buffers a)[k := Pool_Put (buffers a ! k) (Slice ar p (2 ^ k) (2 ^ k))]\<rparr>"
    using assms(3) by auto
  then show ?thesis
  proof cases
    case 1
    then show ?thesis using assms(1) by simp
  next
    case 2
    have "pool_ok h k (buffers a ! k)" using alloc_inv_pool [OF assms(1)] 2(2) by simp
    moreover have "wf_slice h (Slice ar p (2 ^ k) (2 ^ k))" using assms(2) 2(1) by simp
    ultimately have "pool_ok h k (Pool_Put (buffers a ! k) (Slice ar p (2 ^ k) (2 ^ k)))"
      by (simp add: pool_ok_def Pool_Put_def)
    then show ?thesis using alloc_inv_update [OF assms(1) heap_le_refl] 2(3) by simp
  qed
qed

lemma Release_None: "Release w None = Inr (None, w)"
  by (simp add: Release_def)

lemma Release_unpooled:
  "\<not> pooled b \<or> data b = NilSlice \<Longrightarrow> Release w (Some b) = Inr (Some zero_Buffer, w)"
  by (auto simp: Release_def)

lemma Release_pooled:
  assumes "pooled b" "data b \<noteq> NilSlice"
  shows "\<exists>e a'. Allocator_Put (defaultAllocator w) (data b) = Inr (e, a') \<and>
           Release w (Some b) = Inr (Some zero_Buffer, w\<lparr>defaultAllocator := a'\<rparr>)"
proof -
  obtain e a' where "Allocator_Put (defaultAllocator w) (data b) = Inr (e, a')"
    using Allocator_Put_total by blast
  then show ?thesis using assms by (simp add: Release_def alloc_Put_def)
qed

text \<open>
  Claim C8. With the default allocator in its invariant and the buffer's data well
  formed, \<^verbatim>\<open>Release\<close> returns normally, leaves the heap unchanged and keeps the
  allocator's invariant. A \<^verbatim>\<open>nil\<close> receiver changes nothing. Any other buffer becomes
  the zero buffer, which is what \<^verbatim>\<open>NewSize(0)\<close> constructs. A buffer that is not pooled
  or has \<^verbatim>\<open>nil\<close> data (a released buffer, a buffer from \<^verbatim>\<open>FromBytes\<close>) leaves the
  allocator unchanged. A pooled buffer hands its data to the allocator's \<^verbatim>\<open>Put\<close>, whose
  error is dropped; when the data's capacity is \<open>2 ^ k\<close> with \<open>k \<le> 16\<close>, the data, at
  its full capacity, is in pool \<open>k\<close> afterwards.
\<close>
theorem Release_safe:
  assumes "alloc_inv (heap w) (defaultAllocator w)"
    and "\<forall>b. bo = Some b \<longrightarrow> wf_slice (heap w) (data b)"
  shows "\<exists>bo' w'. Release w bo = Inr (bo', w') \<and> heap w' = heap w \<and>
           alloc_inv (heap w') (defaultAllocator w') \<and>
           (bo = None \<longrightarrow> bo' = None \<and> w' = w) \<and>
           (\<forall>b. bo = Some b \<longrightarrow>
              bo' = Some zero_Buffer \<and> NewSize w' 0 = Inr (zero_Buffer, w') \<and>
              (\<not> pooled b \<or> data b = NilSlice \<longrightarrow> w' = w) \<and>
              (pooled b \<and> data b \<noteq> NilSlice \<longrightarrow>
                 (\<exists>e. Allocator_Put (defaultAllocator w) (data b) = Inr (e, defaultAllocator w'))) \<and>
              (\<forall>ar p l k. pooled b \<and> data b = Slice ar p l (2 ^ k) \<and> k \<le> 16 \<longrightarrow>
                 defaultAllocator w' =
                   (defaultAllocator w)\<lparr>buffers := (buffers (defaultAllocator w))
                      [k := Pool_Put (buffers (defaultAllocator w) ! k) (Slice ar p (2 ^ k) (2 ^ k))]\<rparr>)) \<and>
           Release w (Some zero_Buffer) = Inr (Some zero_Buffer, w) \<and>
           (\<forall>s. Release w (Some (FromBytes s)) = Inr (Some zero_Buffer, w))"
proof -
  have z: "Release w (Some zero_Buffer) = Inr (Some zero_Buffer, w)"
    by (rule Release_unpooled) (simp add: zero_Buffer_def)
  have f: "Release w (Some (FromBytes s)) = Inr (Some zero_Buffer, w)" for s
    by (rule Release_unpooled) (simp add: FromBytes_def)
  have n0: "NewSize w' 0 = Inr (zero_Buffer, w')" for w'
    by (simp add: NewSize_zero zero_Buffer_def)
  show ?thesis
  proof (cases bo)
    case None
    then show ?thesis using Release_None assms(1) z f by simp
  next
    case (Some b)
    show ?thesis
    proof (cases "pooled b \<and> data b \<noteq> NilSlice")
      case False
      then have "Release w bo = Inr (Some zero_Buffer, w)"
        using Release_unpooled [of b w] Some by blast
      then show ?thesis using Some False assms(1) z f n0 by auto
    next
      case True
      from Release_pooled [of b w] True obtain e a' where
        p: "Allocator_Put (defaultAllocator w) (data b) = Inr (e, a')"
        and r: "Release w bo = Inr (Some zero_Buffer, w\<lparr>defaultAllocator := a'\<rparr>)"
        using Some by blast
      have wf: "wf_slice (heap w) (data b)" using assms(2) Some by simp
      have inv: "alloc_inv (heap w) a'" using Allocator_Put_inv [OF assms(1) wf p] .
      have acc: "a' = (defaultAllocator w)\<lparr>buffers := (buffers (defaultAllocator w))
                      [k := Pool_Put (buffers (defaultAllocator w) ! k) (Slice ar q (2 ^ k) (2 ^ k))]\<rparr>"
        if "data b = Slice ar q l (2 ^ k)" "k \<le> 16" for ar q l k
        using Allocator_Put_accept [OF alloc_inv_length [OF assms(1)] that(2), of ar q l] p that(1)
        by simp
      show ?thesis
        apply (rule exI [of _ "Some zero_Buffer"])
        apply (rule exI [of _ "w\<lparr>defaultAllocator := a'\<rparr>"])
        using r Some True inv p acc z f n0 by auto
    qed
  qed
qed

theorem Release_safe_witness:
  "alloc_inv (heap \<lparr>heap = [replicate 16 0], defaultAllocator = NewAllocator\<rparr>)
     (defaultAllocator \<lparr>heap = [replicate 16 0], defaultAllocator = NewAllocator\<rparr>) \<and>
   wf_slice [replicate 16 0] (Slice 0 0 10 16) \<and>
   (\<exists>bo' w'. Release \<lparr>heap = [replicate 16 0], defaultAllocator = NewAllocator\<rparr>
            (Some \<lparr>data = Slice 0 0 10 16, start = 0, end_idx = 0, pooled = True\<rparr>) =
          Inr (bo', w') \<and>
        heap w' = [replicate 16 0] \<and>
        alloc_inv (heap w') (defaultAllocator w'))"
proof -
  let ?w = "\<lparr>heap = [replicate 16 0], defaultAllocator = NewAllocator\<rparr>"
  let ?b = "\<lparr>data = Slice 0 0 10 16, start = 0, end_idx = 0, pooled = True\<rparr>"
  have "alloc_inv ([] @ [replicate 16 0]) NewAllocator"
    by (rule alloc_inv_mono [OF heap_le_append alloc_inv_NewAllocator])
  then have i: "alloc_inv (heap ?w) (defaultAllocator ?w)" by simp
  have wf: "wf_slice [replicate 16 0] (Slice 0 0 10 16)" by (simp add: max_int_def)
  have h: "\<forall>b. Some ?b = Some b \<longrightarrow> wf_slice (heap ?w) (data b)" using wf by auto
  have "\<exists>bo' w'. Release ?w (Some ?b) = Inr (bo', w') \<and> heap w' = heap ?w \<and>
           alloc_inv (heap w') (defaultAllocator w')"
    using Release_safe [OF i h] by (elim exE conjE) (intro exI conjI, assumption+)
  then show ?thesis using i wf by simp
qed

section \<open>Exact reads\<close>

lemma content_Slice:
  "data b = Slice a p l c \<Longrightarrow>
     content h b = take (nat (end_idx b - start b)) (drop (p + nat (start b)) (h ! a))"
  by (simp add: content_def)

lemma content_Nil: "data b = NilSlice \<Longrightarrow> content h b = []"
  by (simp add: content_def)

lemma length_content: "buf_inv h b \<Longrightarrow> length (content h b) = nat (end_idx b - start b)"
proof (cases "data b")
  case NilSlice
  assume "buf_inv h b"
  then show ?thesis using NilSlice by (simp add: content_def buf_inv_def)
next
  case (Slice a p l c)
  assume "buf_inv h b"
  then show ?thesis using Slice by (auto simp: content_def buf_inv_def)
qed

lemma ReadBytes_eof: "0 \<le> n \<Longrightarrow> Len b < n \<Longrightarrow> ReadBytes h b n = Inr (NilSlice, Some EOF, b, h)"
  by (simp add: ReadBytes_def)

lemma reset_if_consumed_eq:
  "reset_if_consumed b = (if start b = end_idx b then b\<lparr>start := 0, end_idx := 0\<rparr> else b)"
  by (simp add: reset_if_consumed_def)

lemma ReadBytes_ok:
  assumes "buf_inv h b" "0 \<le> n" "n \<le> Len b"
  shows "ReadBytes h b n =
           Inr (Slice (length h) 0 (nat n) (nat n), None,
                reset_if_consumed (b\<lparr>start := start b + n\<rparr>),
                h @ [take (nat n) (content h b)])"
proof -
  note bb = buf_inv_bounds [OF assms(1)]
  have L: "Len b = end_idx b - start b" using Len_inv [OF assms(1)] .
  have sn: "start b + n \<le> end_idx b" using assms(3) L by simp
  have ga: "go_add (start b) n = start b + n"
    using bb sn assms(2) by (intro go_add_id) simp_all
  have nl: "\<not> Len b < n" "\<not> n < 0" using assms by simp_all
  have mk: "make_slice h n = Inr (Slice (length h) 0 (nat n) (nat n), h @ [replicate (nat n) 0])"
    using assms(2) by (simp add: make_slice_def)
  show ?thesis
  proof (cases "data b")
    case NilSlice
    then have "n = 0" "start b = 0" "end_idx b = 0" using bb sn assms(2) by simp_all
    then show ?thesis
      using NilSlice by (simp add: ReadBytes_def Len_def go_sub_def go_add_def wrap_def
          make_slice_def reslice_def copy_def content_def)
  next
    case (Slice a p l c)
    have wf: "a < length h" "l \<le> c" "p + c \<le> length (h ! a)" using bb(5) Slice by simp_all
    have el: "end_idx b \<le> int l" using bb(3) Slice by simp
    have rs: "reslice (data b) (start b) (start b + n) =
                Inr (Slice a (p + nat (start b)) (nat n) (c - nat (start b)))"
      using Slice bb(1) assms(2) sn el wf(2) by (simp add: reslice_def)
    define bs where "bs = take (nat n) (drop (p + nat (start b)) (h ! a))"
    have lbs: "length bs = nat n"
      using wf el sn bb(1) assms(2) by (simp add: bs_def)
    have bsc: "take (nat n) (content h b) = bs"
      using Slice sn assms(2) by (simp add: content_def bs_def min_def)
    have src: "bytes_of (h @ [replicate (nat n) 0]) (Slice a (p + nat (start b)) (nat n) (c - nat (start b))) = bs"
      using wf(1) by (simp add: bs_def nth_append)
    have cp: "fst (copy (h @ [replicate (nat n) 0]) (Slice (length h) 0 (nat n) (nat n))
                 (Slice a (p + nat (start b)) (nat n) (c - nat (start b)))) = h @ [bs]"
      unfolding copy_def Let_def fst_conv src
      using lbs by simp
    show ?thesis
      unfolding ReadBytes_def ga
      using nl mk rs cp bsc by simp
  qed
qed

text \<open>
  Claim C5. For a buffer in its invariant and \<open>n \<ge> 0\<close>: when fewer than \<open>n\<close> bytes are
  readable, \<^verbatim>\<open>ReadBytes(n)\<close> returns \<^verbatim>\<open>io.EOF\<close> and the buffer and the heap are unchanged.
  Otherwise it returns no error and a slice over a fresh array (its address is not one
  of the heap before the call, where the buffer's data lives) that holds the first
  \<open>n\<close> readable bytes; the read index advances by \<open>n\<close>, and both indexes are 0 when
  nothing readable is left.
\<close>
theorem ReadBytes_exact:
  assumes "buf_inv h b" "0 \<le> n"
  shows "(Len b < n \<longrightarrow> ReadBytes h b n = Inr (NilSlice, Some EOF, b, h)) \<and>
         (n \<le> Len b \<longrightarrow>
            (\<exists>out b' h'. ReadBytes h b n = Inr (out, None, b', h') \<and>
               out = Slice (length h) 0 (nat n) (nat n) \<and>
               h' = h @ [take (nat n) (content h b)] \<and>
               bytes_of h' out = take (nat n) (content h b) \<and>
               (\<forall>a p l c. data b = Slice a p l c \<longrightarrow> a < length h) \<and>
               data b' = data b \<and> pooled b' = pooled b \<and>
               (if start b + n = end_idx b then start b' = 0 \<and> end_idx b' = 0
                else start b' = start b + n \<and> end_idx b' = end_idx b)))"
proof -
  have lc: "length (take (nat n) (content h b)) = nat n" if "n \<le> Len b"
    using that length_content [OF assms(1)] Len_inv [OF assms(1)] by simp
  have al: "\<forall>a p l c. data b = Slice a p l c \<longrightarrow> a < length h"
    using buf_inv_bounds(5) [OF assms(1)] by auto
  show ?thesis
    using ReadBytes_eof [OF assms(2)] ReadBytes_ok [OF assms] lc al
    by (auto simp: reset_if_consumed_eq)
qed

theorem ReadBytes_exact_witness:
  "buf_inv [[1, 2, 3]] \<lparr>data = Slice 0 0 3 3, start = 0, end_idx = 3, pooled = False\<rparr> \<and>
   (0::int) \<le> 2 \<and>
   (\<exists>out b' h'. ReadBytes [[1, 2, 3]]
        \<lparr>data = Slice 0 0 3 3, start = 0, end_idx = 3, pooled = False\<rparr> 2 =
          Inr (out, None, b', h') \<and>
      bytes_of h' out = [1, 2] \<and> start b' = 2 \<and> end_idx b' = 3)"
proof -
  let ?h = "[[1, 2, 3 :: byte]]"
  let ?b = "\<lparr>data = Slice 0 0 3 3, start = 0, end_idx = 3, pooled = False\<rparr>"
  have i: "buf_inv ?h ?b" by (simp add: buf_inv_def max_int_def)
  have n: "(0::int) \<le> 2" by simp
  have l: "2 \<le> Len ?b" by (simp add: Len_inv [OF i])
  have c: "take (nat 2) (content ?h ?b) = [1, 2]" by (simp add: content_def)
  from ReadBytes_exact [OF i n, THEN conjunct2, THEN mp, OF l]
  obtain out b' h' where r: "ReadBytes ?h ?b 2 = Inr (out, None, b', h')"
    and o: "bytes_of h' out = take (nat 2) (content ?h ?b)"
    and s: "if start ?b + 2 = end_idx ?b then start b' = 0 \<and> end_idx b' = 0
            else start b' = start ?b + 2 \<and> end_idx b' = end_idx ?b"
    by (elim exE conjE) (rule that)
  from s have "start b' = 2 \<and> end_idx b' = 3" by simp
  then show ?thesis using i n r o c by auto
qed

end
